theory Spec2Isabelle
  imports Main "HOL-Library.Word" "HOL-Library.Monad_Syntax"
begin

unbundle bit_operations_syntax

section \<open>Registers, bit numbers and the recorded execution\<close>

type_synonym u8 = "8 word"

text \<open>
  The program of \<^verbatim>\<open>spdif2digitech.c\<close> touches five memory-mapped registers of the
  microcontroller. Every access to one of them is a volatile access, so the sequence of
  accesses is the observable behaviour of the program.
\<close>

datatype reg = DDRB | PORTB | USIDR | USISR | USICR

text \<open>\<^verbatim>\<open>_BV(n)\<close> of avr-libc is \<^verbatim>\<open>(1 << (n))\<close>.\<close>

definition BV :: "nat \<Rightarrow> u8" where
  "BV n = push_bit n 1"

text \<open>
  Modelled from the spec: the header \<^verbatim>\<open>avr/io.h\<close> of avr-libc, which the source includes,
  is not part of the repository, and the spec names none of its numbers. \<^verbatim>\<open>PB1\<close>,
  \<^verbatim>\<open>PB2\<close>, \<^verbatim>\<open>PB4\<close> and the bit numbers of \<^verbatim>\<open>USICR\<close> and \<^verbatim>\<open>USISR\<close> below are
  the ones the header gives on the AVR parts that have this serial peripheral on port B.
\<close>

definition PB1 :: nat where "PB1 = 1"
definition PB2 :: nat where "PB2 = 2"
definition PB4 :: nat where "PB4 = 4"

definition USITC :: nat where "USITC = 0"
definition USICLK :: nat where "USICLK = 1"
definition USICS0 :: nat where "USICS0 = 2"
definition USICS1 :: nat where "USICS1 = 3"
definition USIWM0 :: nat where "USIWM0 = 4"
definition USIOIF :: nat where "USIOIF = 6"

text \<open>Lines 6 to 8, 91, 97, 114, 121 and 124 of the source.\<close>

definition DIT4192_CS :: nat where "DIT4192_CS = PB4"
definition SCK :: nat where "SCK = PB2"
definition DOUT :: nat where "DOUT = PB1"

definition POWER_DOWN_AND_CLOCK_CONTROL :: u8 where "POWER_DOWN_AND_CLOCK_CONTROL = 0x02"
definition CLK0 :: nat where "CLK0 = 1"

definition AUDIO_SERIAL_PORT_CONTROL :: u8 where "AUDIO_SERIAL_PORT_CONTROL = 0x03"
definition WLEN0 :: nat where "WLEN0 = 2"
definition JUS :: nat where "JUS = 4"

text \<open>
  What the processor does, in program order: register reads (with the value read),
  register writes (with the value written), and the four avr-libc operations of
  \<^verbatim>\<open>main\<close> that touch none of the five registers (\<^verbatim>\<open>_delay_ms\<close>, \<^verbatim>\<open>cli\<close>,
  \<^verbatim>\<open>set_sleep_mode\<close> and \<^verbatim>\<open>sleep_cpu\<close>), which are recorded and otherwise left
  uninterpreted.
\<close>

datatype event =
    Rd reg u8
  | Wr reg u8
  | Delay_ms nat
  | Cli
  | Set_sleep_mode_PWR_DOWN
  | Sleep_cpu

text \<open>
  The hardware behind the registers is a parameter of the program: a state of any type
  \<open>'h\<close>, the value a register reads as in a state, and the state after a write. The
  system is the hardware together with the record of what the processor has done; \<open>rd\<close>
  and \<open>wr\<close> are the volatile read and write of a register.
\<close>

record 'h device =
  dev_read :: "reg \<Rightarrow> 'h \<Rightarrow> u8"
  dev_write :: "reg \<Rightarrow> u8 \<Rightarrow> 'h \<Rightarrow> 'h"

record 'h sys =
  hw :: 'h
  log :: "event list"

definition rd :: "'h device \<Rightarrow> reg \<Rightarrow> 'h sys \<Rightarrow> u8 \<times> 'h sys" where
  "rd d r s = (let v = dev_read d r (hw s) in (v, s\<lparr>log := log s @ [Rd r v]\<rparr>))"

definition wr :: "'h device \<Rightarrow> reg \<Rightarrow> u8 \<Rightarrow> 'h sys \<Rightarrow> 'h sys" where
  "wr d r v s = s\<lparr>hw := dev_write d r v (hw s), log := log s @ [Wr r v]\<rparr>"

definition emit :: "event \<Rightarrow> 'h sys \<Rightarrow> 'h sys" where
  "emit e s = s\<lparr>log := log s @ [e]\<rparr>"

section \<open>The program\<close>

text \<open>Line 10: \<^verbatim>\<open>#define SELECT PORTB &= ~_BV(DIT4192_CS);\<close>\<close>

definition SELECT :: "'h device \<Rightarrow> 'h sys \<Rightarrow> 'h sys" where
  "SELECT d s = (let (p, s1) = rd d PORTB s in wr d PORTB (p AND NOT (BV DIT4192_CS)) s1)"

text \<open>Line 11: \<^verbatim>\<open>#define DESELECT PORTB |= _BV(DIT4192_CS);\<close>\<close>

definition DESELECT :: "'h device \<Rightarrow> 'h sys \<Rightarrow> 'h sys" where
  "DESELECT d s = (let (p, s1) = rd d PORTB s in wr d PORTB (p OR BV DIT4192_CS) s1)"

text \<open>
  Lines 189 to 191, the polling loop of \<^verbatim>\<open>SPISend\<close>:
  \<^verbatim>\<open>while (!(USISR & _BV(USIOIF))) { USICR = _BV(USIWM0) | _BV(USICS1) | _BV(USICLK) | _BV(USITC); }\<close>
  It has no bound, so not returning is the value \<open>None\<close>.
\<close>

partial_function (option) SPISend_loop :: "'h device \<Rightarrow> 'h sys \<Rightarrow> 'h sys option" where
  "SPISend_loop d s =
     (let (v, s1) = rd d USISR s in
      if v AND BV USIOIF = 0
      then SPISend_loop d (wr d USICR (BV USIWM0 OR BV USICS1 OR BV USICLK OR BV USITC) s1)
      else Some s1)"

text \<open>
  Lines 183 to 195:
  \<^verbatim>\<open>uint8_t SPISend (uint8_t b) { USIDR = b; USISR = _BV(USIOIF); while ...; return USIDR; }\<close>
\<close>

definition SPISend :: "'h device \<Rightarrow> u8 \<Rightarrow> 'h sys \<Rightarrow> (u8 \<times> 'h sys) option" where
  "SPISend d b s =
     do {
       let s1 = wr d USIDR b s;
       let s2 = wr d USISR (BV USIOIF) s1;
       s3 \<leftarrow> SPISend_loop d s2;
       Some (rd d USIDR s3)
     }"

text \<open>
  Lines 198 to 204, \<^verbatim>\<open>void DIT4192WriteReg (uint8_t reg, uint8_t value)\<close>, with \<open>val\<close>
  for the parameter \<^verbatim>\<open>value\<close>: the three values that \<^verbatim>\<open>SPISend\<close> returns are not
  used.
\<close>

definition DIT4192WriteReg :: "'h device \<Rightarrow> u8 \<Rightarrow> u8 \<Rightarrow> 'h sys \<Rightarrow> 'h sys option" where
  "DIT4192WriteReg d reg val s =
     do {
       let s0 = SELECT d s;
       (r1, s1) \<leftarrow> SPISend d (reg AND 0x3f) s0;
       (r2, s2) \<leftarrow> SPISend d 0xff s1;
       (r3, s3) \<leftarrow> SPISend d val s2;
       Some (DESELECT d s3)
     }"

text \<open>Lines 206 to 214, \<^verbatim>\<open>uint8_t DIT4192ReadReg (uint8_t reg)\<close>.\<close>

definition DIT4192ReadReg :: "'h device \<Rightarrow> u8 \<Rightarrow> 'h sys \<Rightarrow> (u8 \<times> 'h sys) option" where
  "DIT4192ReadReg d reg s =
     do {
       let s0 = SELECT d s;
       (r1, s1) \<leftarrow> SPISend d ((reg AND 0x3f) OR 0x80) s0;
       (r2, s2) \<leftarrow> SPISend d 0xff s1;
       (val, s3) \<leftarrow> SPISend d 0xff s2;
       Some (val, DESELECT d s3)
     }"

text \<open>
  \<^verbatim>\<open>main\<close> up to and including \<^verbatim>\<open>sleep_cpu ()\<close>: lines 159 to 176 of the source.
\<close>

definition main_init :: "'h device \<Rightarrow> 'h sys \<Rightarrow> 'h sys option" where
  "main_init d s =
     do {
       let s1 = wr d DDRB (BV DIT4192_CS OR BV SCK OR BV DOUT) s;
       let s2 = DESELECT d s1;
       let s3 = emit (Delay_ms 5) s2;
       s4 \<leftarrow> DIT4192WriteReg d AUDIO_SERIAL_PORT_CONTROL (BV JUS OR BV WLEN0) s3;
       s5 \<leftarrow> DIT4192WriteReg d POWER_DOWN_AND_CLOCK_CONTROL (BV CLK0) s4;
       let s6 = emit Cli s5;
       let s7 = emit Set_sleep_mode_PWR_DOWN s6;
       Some (emit Sleep_cpu s7)
     }"

text \<open>
  The rest of \<^verbatim>\<open>main\<close>, lines 176 to 179: \<^verbatim>\<open>sleep_cpu ()\<close> has been issued and
  control is either still in it or, when the sleep did not happen or was left, in
  \<^verbatim>\<open>while (1);\<close>, whose body is empty. Neither place touches a register.
  \<^verbatim>\<open>main\<close> never returns: there is no third place.
\<close>

datatype pc = At_sleep_cpu | At_while_1

fun tail_step :: "bool \<Rightarrow> pc \<times> 'h sys \<Rightarrow> pc \<times> 'h sys" where
  "tail_step woken (At_sleep_cpu, s) = (if woken then At_while_1 else At_sleep_cpu, s)"
| "tail_step woken (At_while_1, s) = (At_while_1, s)"

text \<open>
  \<^verbatim>\<open>main\<close>, observed after the straight-line part and one further step for each
  element of \<open>wakes\<close>; an element says whether the processor has left the sleep at
  that step.
\<close>

definition main :: "'h device \<Rightarrow> bool list \<Rightarrow> 'h sys \<Rightarrow> (pc \<times> 'h sys) option" where
  "main d wakes s = map_option (\<lambda>s'. fold tail_step wakes (At_sleep_cpu, s')) (main_init d s)"

text \<open>
  The entry point invoked a second time: \<^verbatim>\<open>main\<close> runs to an observation under the
  wake schedule \<open>w1\<close>, and is then entered again on the system as that run has left it
  and observed under \<open>w2\<close>. The source keeps no variable across invocations, so the
  second invocation starts at line 159 like the first.
\<close>

definition main_twice ::
  "'h device \<Rightarrow> bool list \<Rightarrow> bool list \<Rightarrow> 'h sys \<Rightarrow> (pc \<times> 'h sys) option" where
  "main_twice d w1 w2 s = main d w1 s \<bind> (main d w2 \<circ> snd)"

section \<open>What a bus recorder sees\<close>

text \<open>
  The serial bus as a recorder on the three lines would log it: the level of the
  chip-select line whenever \<^verbatim>\<open>PORTB\<close> is written (the DIT4192 is selected while the
  pin is low), each byte loaded into the shift register and each byte read back from it.
\<close>

datatype wire = CS bool | Tx u8 | Rx u8

fun wire_of :: "event \<Rightarrow> wire list" where
  "wire_of (Wr PORTB v) = [CS (\<not> bit v DIT4192_CS)]"
| "wire_of (Wr USIDR v) = [Tx v]"
| "wire_of (Rd USIDR v) = [Rx v]"
| "wire_of _ = []"

definition wire :: "event list \<Rightarrow> wire list" where
  "wire l = concat (map wire_of l)"

text \<open>
  The select windows of a recorded bus log: the log is cut at each select and deselect, and
  the result is the list of what the bus carried inside each window. The first argument is
  the window that is open, newest entry first, or \<open>None\<close> while the chip is deselected.
  There is no result when a byte moves while the chip is deselected, when the chip is
  selected while it is selected or deselected while it is deselected, or when the log ends
  inside a window.
\<close>

fun windows :: "wire list option \<Rightarrow> wire list \<Rightarrow> wire list list option" where
  "windows None [] = Some []"
| "windows (Some acc) [] = None"
| "windows None (CS True # w) = windows (Some []) w"
| "windows None (e # w) = None"
| "windows (Some acc) (CS False # w) = map_option ((#) (rev acc)) (windows None w)"
| "windows (Some acc) (CS True # w) = None"
| "windows (Some acc) (e # w) = windows (Some (e # acc)) w"

text \<open>The bytes loaded into the shift register in a bus log, in order.\<close>

fun sent :: "wire list \<Rightarrow> u8 list" where
  "sent [] = []"
| "sent (Tx x # w) = x # sent w"
| "sent (e # w) = sent w"

text \<open>A sequence of calls of the two register operations, in order.\<close>

datatype call = Write u8 u8 | Read u8

fun do_call :: "'h device \<Rightarrow> call \<Rightarrow> 'h sys \<Rightarrow> 'h sys option" where
  "do_call d (Write a v) s = DIT4192WriteReg d a v s"
| "do_call d (Read a) s = map_option snd (DIT4192ReadReg d a s)"

fun do_calls :: "'h device \<Rightarrow> call list \<Rightarrow> 'h sys \<Rightarrow> 'h sys option" where
  "do_calls d [] s = Some s"
| "do_calls d (c # cs) s = do_call d c s \<bind> do_calls d cs"

text \<open>
  The loop of \<^verbatim>\<open>SPISend\<close> seen from the hardware: one write of the strobe value to
  \<^verbatim>\<open>USICR\<close>, the hardware after \<open>n\<close> of them, whether \<^verbatim>\<open>USISR\<close> reads with
  \<^verbatim>\<open>USIOIF\<close> set, and the accesses that \<open>n\<close> iterations and the final poll record.
\<close>

definition strobe :: "'h device \<Rightarrow> 'h \<Rightarrow> 'h" where
  "strobe d = dev_write d USICR (BV USIWM0 OR BV USICS1 OR BV USICLK OR BV USITC)"

fun strobes :: "'h device \<Rightarrow> nat \<Rightarrow> 'h \<Rightarrow> 'h" where
  "strobes d 0 h = h"
| "strobes d (Suc n) h = strobes d n (strobe d h)"

definition flagged :: "'h device \<Rightarrow> 'h \<Rightarrow> bool" where
  "flagged d h = (dev_read d USISR h AND BV USIOIF \<noteq> 0)"

fun poll_log :: "'h device \<Rightarrow> nat \<Rightarrow> 'h \<Rightarrow> event list" where
  "poll_log d 0 h = [Rd USISR (dev_read d USISR h)]"
| "poll_log d (Suc n) h =
     Rd USISR (dev_read d USISR h)
       # Wr USICR (BV USIWM0 OR BV USICS1 OR BV USICLK OR BV USITC)
       # poll_log d n (strobe d h)"

text \<open>The flag values that the polls of \<^verbatim>\<open>USISR\<close> in a log have read, in order.\<close>

fun polled :: "event list \<Rightarrow> bool list" where
  "polled [] = []"
| "polled (Rd USISR v # l) = (v AND BV USIOIF \<noteq> 0) # polled l"
| "polled (e # l) = polled l"

text \<open>
  A device on which every byte exchange completes: \<^verbatim>\<open>SPISend\<close> returns from every
  state. This is the assumption under which the spec describes the register operations.
\<close>

definition responsive :: "'h device \<Rightarrow> bool" where
  "responsive d = (\<forall>b s. SPISend d b s \<noteq> None)"

section \<open>Two devices\<close>

text \<open>
  Modelled from the spec: the serial peripheral behind \<^verbatim>\<open>USIDR\<close>, \<^verbatim>\<open>USISR\<close> and
  \<^verbatim>\<open>USICR\<close> is hardware, and no file of the repository describes it. The model is the
  shift register of the spec's Byte Shifter (section 4.1: most significant bit first, one
  incoming bit captured for each outgoing bit in the same clock pulse, completion signalled
  by an edge counter that overflows), with the register layout of the universal serial
  interface of the ATtiny25/45/85 in the three-wire mode that \<^verbatim>\<open>SPISend\<close> selects, and
  with the pins configured as the first statement of \<^verbatim>\<open>main\<close> configures them.
  \<open>di_line h k\<close> is the level of the data-in line at the \<open>k\<close>-th shift since reset, and
  \<open>pulses h\<close> records, for each shift so far, the bit driven out and the bit taken in.
\<close>

record usi_state =
  ddrb :: u8
  portb :: u8
  usidr :: u8
  usicr :: u8
  usioif :: bool
  usicnt :: nat
  di_line :: "nat \<Rightarrow> bool"
  pulses :: "(bool \<times> bool) list"

text \<open>
  Modelled from the spec: one step of the shift register, not in the repository. The
  register moves up by one bit and the incoming bit enters at the bottom.
\<close>

definition shift_in :: "u8 \<Rightarrow> bool \<Rightarrow> u8" where
  "shift_in w x = push_bit 1 w OR of_bool x"

text \<open>
  Modelled from the spec: one shift of the peripheral, not in the repository. The top bit
  of \<^verbatim>\<open>USIDR\<close> is the one on the data-out line, the level of the data-in line is
  captured in the same step, and the pair is recorded.
\<close>

definition usi_shift :: "usi_state \<Rightarrow> usi_state" where
  "usi_shift h =
     (let x = di_line h (length (pulses h))
      in h\<lparr>usidr := shift_in (usidr h) x, pulses := pulses h @ [(bit (usidr h) 7, x)]\<rparr>)"

text \<open>
  Modelled from the spec: one count of the peripheral's 4-bit edge counter, not in the
  repository. The overflow from 15 to 0 sets the completion flag \<^verbatim>\<open>USIOIF\<close>.
\<close>

definition usi_count :: "usi_state \<Rightarrow> usi_state" where
  "usi_count h = (let c = Suc (usicnt h) mod 16 in h\<lparr>usicnt := c, usioif := (usioif h \<or> c = 0)\<rparr>)"

text \<open>
  Modelled from the spec: a write to \<^verbatim>\<open>USICR\<close>, not in the repository. The strobe bits
  \<^verbatim>\<open>USICLK\<close> and \<^verbatim>\<open>USITC\<close> are not stored. Writing \<^verbatim>\<open>USITC\<close> toggles the clock pin
  (bit \<^verbatim>\<open>SCK\<close> of \<^verbatim>\<open>PORTB\<close>). With \<^verbatim>\<open>USICS1\<close> set, each toggle counts once, and
  the register shifts on the rising edge when \<^verbatim>\<open>USICS0\<close> is clear and on the falling edge
  when it is set. The clock sources that software does not drive are not modelled.
\<close>

definition usi_write_USICR :: "u8 \<Rightarrow> usi_state \<Rightarrow> usi_state" where
  "usi_write_USICR v h =
     (let h1 = h\<lparr>usicr := v AND NOT (BV USICLK OR BV USITC)\<rparr> in
      if bit v USITC then
        let rising = \<not> bit (portb h1) SCK;
            h2 = h1\<lparr>portb := portb h1 XOR BV SCK\<rparr>
        in if bit v USICS1
           then usi_count (if rising = (\<not> bit v USICS0) then usi_shift h2 else h2)
           else h2
      else h1)"

text \<open>
  Modelled from the spec: what the registers read as, not in the repository. \<^verbatim>\<open>USISR\<close>
  holds the completion flag in bit \<^verbatim>\<open>USIOIF\<close> and the counter in its low four bits.
\<close>

definition usi_read :: "reg \<Rightarrow> usi_state \<Rightarrow> u8" where
  "usi_read r h =
     (case r of
        DDRB \<Rightarrow> ddrb h
      | PORTB \<Rightarrow> portb h
      | USIDR \<Rightarrow> usidr h
      | USISR \<Rightarrow> (if usioif h then BV USIOIF else 0) OR (word_of_nat (usicnt h) AND 0x0F)
      | USICR \<Rightarrow> usicr h)"

text \<open>
  Modelled from the spec: what a write to a register does, not in the repository. A write
  to \<^verbatim>\<open>USISR\<close> clears the completion flag when it writes a one to \<^verbatim>\<open>USIOIF\<close> and
  loads the counter from the low four bits.
\<close>

definition usi_write :: "reg \<Rightarrow> u8 \<Rightarrow> usi_state \<Rightarrow> usi_state" where
  "usi_write r v h =
     (case r of
        DDRB \<Rightarrow> h\<lparr>ddrb := v\<rparr>
      | PORTB \<Rightarrow> h\<lparr>portb := v\<rparr>
      | USIDR \<Rightarrow> h\<lparr>usidr := v\<rparr>
      | USISR \<Rightarrow> h\<lparr>usioif := (usioif h \<and> \<not> bit v USIOIF), usicnt := unat (v AND 0x0F)\<rparr>
      | USICR \<Rightarrow> usi_write_USICR v h)"

text \<open>Modelled from the spec: the serial peripheral as a device, not in the repository.\<close>

definition usi :: "usi_state device" where
  "usi = \<lparr>dev_read = usi_read, dev_write = usi_write\<rparr>"

text \<open>
  Modelled from the spec: the peripheral after reset, not in the repository, on a data-in
  line \<open>di\<close>: every register reads zero and nothing has been shifted.
\<close>

definition usi_reset :: "(nat \<Rightarrow> bool) \<Rightarrow> usi_state" where
  "usi_reset di = \<lparr>ddrb = 0, portb = 0, usidr = 0, usicr = 0, usioif = False, usicnt = 0,
                   di_line = di, pulses = []\<rparr>"

text \<open>
  The system at the entry of \<^verbatim>\<open>main\<close>, with a data-in line that alternates between
  high and low, starting high.
\<close>

definition boot :: "usi_state sys" where
  "boot = \<lparr>hw = usi_reset even, log = []\<rparr>"

text \<open>
  The same system on a data-in line that stays low for the first 16 shifts and alternates
  from then on.
\<close>

definition late_line :: "usi_state sys" where
  "late_line = \<lparr>hw = usi_reset (\<lambda>k. 16 \<le> k \<and> even k), log = []\<rparr>"

text \<open>
  A peripheral that never signals completion: its registers always read zero and writes
  have no effect.
\<close>

definition stuck :: "unit device" where
  "stuck = \<lparr>dev_read = (\<lambda>r h. 0), dev_write = (\<lambda>r v h. h)\<rparr>"

text \<open>A byte from its bits and the bits of a byte, most significant first.\<close>

definition byte_of_bits :: "bool list \<Rightarrow> u8" where
  "byte_of_bits xs = foldl shift_in 0 xs"

definition bits_of_byte :: "u8 \<Rightarrow> bool list" where
  "bits_of_byte w = map (\<lambda>i. bit w (7 - i)) [0..<8]"

text \<open>The levels that the next \<open>m\<close> shifts take from the data-in line.\<close>

definition incoming :: "usi_state \<Rightarrow> nat \<Rightarrow> bool list" where
  "incoming h m = map (di_line h) [length (pulses h)..<length (pulses h) + m]"

text \<open>The pairs that shifting a list of bits into a register records.\<close>

fun shift_out :: "u8 \<Rightarrow> bool list \<Rightarrow> (bool \<times> bool) list" where
  "shift_out w [] = []"
| "shift_out w (x # xs) = (bit w 7, x) # shift_out (shift_in w x) xs"

text \<open>The peripheral once \<^verbatim>\<open>SPISend\<close> has written \<^verbatim>\<open>USIDR\<close> and \<^verbatim>\<open>USISR\<close>.\<close>

definition loaded :: "u8 \<Rightarrow> usi_state \<Rightarrow> usi_state" where
  "loaded b h = usi_write USISR (BV USIOIF) (usi_write USIDR b h)"

section \<open>The polling loop on any device\<close>

lemma wire_append [simp]: "wire (xs @ ys) = wire xs @ wire ys"
  by (simp add: wire_def)

lemma wire_Nil [simp]: "wire [] = []"
  by (simp add: wire_def)

lemma wire_Cons [simp]: "wire (e # l) = wire_of e @ wire l"
  by (simp add: wire_def)

lemma wire_poll_log [simp]: "wire (poll_log d n h) = []"
  by (induction n arbitrary: h) simp_all

lemma loop_after:
  assumes "\<forall>k<n. \<not> flagged d (strobes d k (hw s))" and "flagged d (strobes d n (hw s))"
  shows "SPISend_loop d s = Some (s\<lparr>hw := strobes d n (hw s), log := log s @ poll_log d n (hw s)\<rparr>)"
  using assms
proof (induction n arbitrary: s)
  case 0
  then show ?case
    by (subst SPISend_loop.simps) (simp add: rd_def flagged_def Let_def)
next
  case (Suc n)
  let ?s' = "wr d USICR (BV USIWM0 OR BV USICS1 OR BV USICLK OR BV USITC) (snd (rd d USISR s))"
  have hw': "hw ?s' = strobe d (hw s)"
    by (simp add: wr_def rd_def strobe_def Let_def)
  have log': "log ?s' = log s @ [Rd USISR (dev_read d USISR (hw s)),
      Wr USICR (BV USIWM0 OR BV USICS1 OR BV USICLK OR BV USITC)]"
    by (simp add: wr_def rd_def Let_def)
  have nf: "\<not> flagged d (hw s)"
    using Suc.prems(1) [rule_format, of 0] by simp
  have a: "\<forall>k<n. \<not> flagged d (strobes d k (hw ?s'))"
  proof (intro allI impI)
    fix k assume "k < n"
    then show "\<not> flagged d (strobes d k (hw ?s'))"
      using Suc.prems(1) [rule_format, of "Suc k"] by (simp add: hw')
  qed
  have b: "flagged d (strobes d n (hw ?s'))"
    using Suc.prems(2) by (simp add: hw')
  have "SPISend_loop d s = SPISend_loop d ?s'"
    using nf by (subst SPISend_loop.simps) (simp add: rd_def flagged_def Let_def)
  also have "\<dots> = Some (?s'\<lparr>hw := strobes d n (hw ?s'), log := log ?s' @ poll_log d n (hw ?s')\<rparr>)"
    by (rule Suc.IH [OF a b])
  also have "?s'\<lparr>hw := strobes d n (hw ?s'), log := log ?s' @ poll_log d n (hw ?s')\<rparr>
      = s\<lparr>hw := strobes d (Suc n) (hw s), log := log s @ poll_log d (Suc n) (hw s)\<rparr>"
    unfolding hw' log' by (simp add: wr_def rd_def Let_def)
  finally show ?case .
qed

lemma loop_Some:
  assumes "SPISend_loop d s = Some s'"
  shows "\<exists>n. (\<forall>k<n. \<not> flagged d (strobes d k (hw s))) \<and> flagged d (strobes d n (hw s))
           \<and> s' = s\<lparr>hw := strobes d n (hw s), log := log s @ poll_log d n (hw s)\<rparr>"
proof (rule SPISend_loop.raw_induct [OF _ assms], goal_cases)
  case (1 loop d s s')
  show ?case
  proof (cases "flagged d (hw s)")
    case True
    then have "s' = snd (rd d USISR s)"
      using 1(2) by (simp add: rd_def flagged_def Let_def)
    then show ?thesis
      using True by (intro exI [where x = 0]) (simp add: rd_def Let_def)
  next
    case False
    let ?s' = "wr d USICR (BV USIWM0 OR BV USICS1 OR BV USICLK OR BV USITC) (snd (rd d USISR s))"
    have hw': "hw ?s' = strobe d (hw s)"
      by (simp add: wr_def rd_def strobe_def Let_def)
    have log': "log ?s' = log s @ [Rd USISR (dev_read d USISR (hw s)),
        Wr USICR (BV USIWM0 OR BV USICS1 OR BV USICLK OR BV USITC)]"
      by (simp add: wr_def rd_def Let_def)
    from False 1(2) have "loop d ?s' = Some s'"
      by (simp add: rd_def flagged_def Let_def)
    from 1(1) [OF this] obtain n where
      n: "\<forall>k<n. \<not> flagged d (strobes d k (hw ?s'))" "flagged d (strobes d n (hw ?s'))"
        "s' = ?s'\<lparr>hw := strobes d n (hw ?s'), log := log ?s' @ poll_log d n (hw ?s')\<rparr>"
      by blast
    have "\<forall>k<Suc n. \<not> flagged d (strobes d k (hw s))"
    proof (intro allI impI)
      fix k assume k: "k < Suc n"
      show "\<not> flagged d (strobes d k (hw s))"
      proof (cases k)
        case 0
        then show ?thesis using False by simp
      next
        case (Suc j)
        then show ?thesis using k n(1) [rule_format, of j] by (simp add: hw')
      qed
    qed
    moreover have "flagged d (strobes d (Suc n) (hw s))"
      using n(2) by (simp add: hw')
    moreover have "s' = s\<lparr>hw := strobes d (Suc n) (hw s), log := log s @ poll_log d (Suc n) (hw s)\<rparr>"
      unfolding n(3) hw' log' by (simp add: wr_def rd_def Let_def)
    ultimately show ?thesis by (intro exI [where x = "Suc n"] conjI)
  qed
qed

section \<open>The serial peripheral\<close>

lemma BV_simps:
  "BV USITC = 1" "BV USICLK = 2" "BV USICS0 = 4" "BV USICS1 = 8" "BV USIWM0 = 16" "BV USIOIF = 64"
  "BV DIT4192_CS = 16" "BV SCK = 4" "BV DOUT = 2" "BV JUS = 16" "BV WLEN0 = 4" "BV CLK0 = 2"
  by (simp_all add: BV_def USITC_def USICLK_def USICS0_def USICS1_def USIWM0_def USIOIF_def
      DIT4192_CS_def SCK_def DOUT_def PB1_def PB2_def PB4_def JUS_def WLEN0_def CLK0_def)

lemma BV_num:
  "BV 0 = 1" "BV 1 = 2" "BV (Suc 0) = 2" "BV 2 = 4" "BV 3 = 8" "BV 4 = 16" "BV 6 = 64"
  by (simp_all add: BV_def)

lemmas bitno_defs = USITC_def USICLK_def USICS0_def USICS1_def USIWM0_def USIOIF_def
  DIT4192_CS_def SCK_def DOUT_def PB1_def PB2_def PB4_def JUS_def WLEN0_def CLK0_def

lemma strobe_value: "BV USIWM0 OR BV USICS1 OR BV USICLK OR BV USITC = (0x1B :: u8)"
  by (simp add: BV_simps)

lemma flagged_usi: "flagged usi h = usioif h"
  by (cases "usioif h")
     (simp_all add: flagged_def usi_def usi_read_def BV_simps bit.conj_disj_distrib2 and.assoc)

lemma strobe_usi:
  "strobe usi h =
     usi_count (if bit (portb h) SCK
                then h\<lparr>usicr := 0x18, portb := portb h XOR BV SCK\<rparr>
                else usi_shift (h\<lparr>usicr := 0x18, portb := portb h XOR BV SCK\<rparr>))"
  unfolding strobe_def strobe_value
  by (simp add: usi_def usi_write_def usi_write_USICR_def Let_def bitno_defs BV_num)

lemma usicnt_strobe: "usicnt (strobe usi h) = Suc (usicnt h) mod 16"
  by (simp add: strobe_usi usi_count_def usi_shift_def Let_def)

lemma usioif_strobe: "usioif (strobe usi h) = (usioif h \<or> Suc (usicnt h) mod 16 = 0)"
  by (simp add: strobe_usi usi_count_def usi_shift_def Let_def)

lemma usicnt_strobes: "usicnt h < 16 \<Longrightarrow> usicnt (strobes usi k h) = (usicnt h + k) mod 16"
  by (induction k arbitrary: h) (simp_all add: usicnt_strobe mod_simps)

lemma usioif_strobes:
  "usicnt h < 16 \<Longrightarrow> usioif (strobes usi k h) = (usioif h \<or> 16 \<le> usicnt h + k)"
proof (induction k arbitrary: h)
  case 0
  then show ?case by simp
next
  case (Suc k)
  have "usicnt (strobe usi h) < 16"
    by (simp add: usicnt_strobe)
  from Suc.IH [OF this] show ?case
    using Suc.prems by (auto simp: usicnt_strobe usioif_strobe mod_Suc split: if_splits)
qed

lemma incoming_0 [simp]: "incoming h 0 = []"
  by (simp add: incoming_def)

lemma XOR_SCK: "bit (p XOR BV SCK) SCK = (\<not> bit p SCK)" "(p XOR BV SCK) XOR BV SCK = p"
  by (simp_all add: bit_simps BV_def SCK_def PB2_def xor.assoc)

lemma pulse_usi:
  "strobe usi (strobe usi h) =
     h\<lparr>usicr := 0x18,
       usidr := shift_in (usidr h) (di_line h (length (pulses h))),
       pulses := pulses h @ [(bit (usidr h) 7, di_line h (length (pulses h)))],
       usicnt := Suc (Suc (usicnt h) mod 16) mod 16,
       usioif := (usioif h \<or> Suc (usicnt h) mod 16 = 0 \<or> Suc (Suc (usicnt h) mod 16) mod 16 = 0)\<rparr>"
  by (cases "bit (portb h) SCK")
     (simp_all add: strobe_usi XOR_SCK usi_count_def usi_shift_def Let_def)

lemma strobes_usi_even:
  "usidr (strobes usi (2 * m) h) = foldl shift_in (usidr h) (incoming h m)
   \<and> pulses (strobes usi (2 * m) h) = pulses h @ shift_out (usidr h) (incoming h m)
   \<and> di_line (strobes usi (2 * m) h) = di_line h
   \<and> portb (strobes usi (2 * m) h) = portb h"
proof (induction m arbitrary: h)
  case 0
  show ?case by simp
next
  case (Suc m)
  let ?h = "strobe usi (strobe usi h)"
  have inc: "incoming h (Suc m) = di_line h (length (pulses h)) # incoming ?h m"
    by (simp add: incoming_def pulse_usi upt_conv_Cons del: upt_Suc)
  have "strobes usi (2 * Suc m) h = strobes usi (2 * m) ?h"
    by simp
  then show ?case
    using Suc.IH [of ?h] by (simp add: inc) (simp add: pulse_usi)
qed

lemma bit_shift_in: "bit (shift_in w x) i = (if i = 0 then x else i < 8 \<and> bit w (i - 1))"
proof (cases i)
  case 0
  then show ?thesis by (simp add: shift_in_def bit_0 even_or_iff)
next
  case (Suc j)
  have "bit (push_bit 1 w) (Suc j) = (Suc j < 8 \<and> bit w j)"
    by (auto simp add: bit_push_bit_iff simp del: push_bit_Suc dest: bit_imp_le_length)
  then show ?thesis
    using Suc by (simp add: shift_in_def bit_or_iff bit_of_bool_iff del: push_bit_Suc)
qed

lemma bit_foldl_shift_in:
  "i < 8 \<Longrightarrow> bit (foldl shift_in w xs) i = (if i < length xs then rev xs ! i else bit w (i - length xs))"
proof (induction xs arbitrary: i rule: rev_induct)
  case Nil
  then show ?case by simp
next
  case (snoc x xs)
  show ?case
  proof (cases i)
    case 0
    then show ?thesis by (simp add: bit_shift_in)
  next
    case (Suc j)
    then have "j < 8" using snoc.prems by simp
    from snoc.IH [OF this] show ?thesis
      using Suc snoc.prems by (simp add: bit_shift_in)
  qed
qed

lemma foldl_shift_in_8: "length xs = 8 \<Longrightarrow> foldl shift_in w xs = byte_of_bits xs"
  unfolding byte_of_bits_def
  by (rule bit_word_eqI) (simp add: bit_foldl_shift_in)

lemma bits_of_byte_of_bits: "length xs = 8 \<Longrightarrow> bits_of_byte (byte_of_bits xs) = xs"
proof (rule nth_equalityI)
  show "length xs = 8 \<Longrightarrow> length (bits_of_byte (byte_of_bits xs)) = length xs"
    by (simp add: bits_of_byte_def)
next
  fix i assume l: "length xs = 8" and "i < length (bits_of_byte (byte_of_bits xs))"
  then have i: "i < 8" by (simp add: bits_of_byte_def)
  then have "bits_of_byte (byte_of_bits xs) ! i = bit (foldl shift_in 0 xs) (7 - i)"
    by (simp add: bits_of_byte_def byte_of_bits_def del: upt_Suc)
  also have "\<dots> = rev xs ! (7 - i)"
  proof -
    have "7 - i < length xs" using l by arith
    moreover have "7 - i < 8" by arith
    ultimately show ?thesis by (simp add: bit_foldl_shift_in)
  qed
  also have "\<dots> = xs ! i"
    using l i by (simp add: rev_nth)
  finally show "bits_of_byte (byte_of_bits xs) ! i = xs ! i" .
qed

lemma upt_0_Suc_Cons: "[0..<Suc n] = 0 # map Suc [0..<n]"
  by (simp add: upt_conv_Cons map_Suc_upt del: upt_Suc)

lemma shift_out_le8:
  "length xs \<le> 8 \<Longrightarrow> shift_out w xs = zip (map (\<lambda>i. bit w (7 - i)) [0..<length xs]) xs"
proof (induction xs arbitrary: w)
  case Nil
  then show ?case by simp
next
  case (Cons x xs)
  have l: "length xs \<le> 7" using Cons.prems by simp
  have tl: "map (\<lambda>i. bit (shift_in w x) (7 - i)) [0..<length xs]
      = map ((\<lambda>i. bit w (7 - i)) \<circ> Suc) [0..<length xs]"
  proof (rule map_cong [OF refl])
    fix i assume "i \<in> set [0..<length xs]"
    then have "i < 7" using l by simp
    then have "7 - i \<noteq> 0" "7 - i < 8" "7 - i - 1 = 7 - Suc i" by arith+
    then show "bit (shift_in w x) (7 - i) = ((\<lambda>i. bit w (7 - i)) \<circ> Suc) i"
      by (simp only: bit_shift_in if_False simp_thms o_apply)
  qed
  have "shift_out w (x # xs) = (bit w 7, x) # shift_out (shift_in w x) xs"
    by simp
  also have "shift_out (shift_in w x) xs = zip (map (\<lambda>i. bit (shift_in w x) (7 - i)) [0..<length xs]) xs"
    using l by (intro Cons.IH) simp
  also have "(bit w 7, x) # zip (map (\<lambda>i. bit (shift_in w x) (7 - i)) [0..<length xs]) xs
      = zip (map (\<lambda>i. bit w (7 - i)) [0..<length (x # xs)]) (x # xs)"
    unfolding tl by (simp add: upt_0_Suc_Cons del: upt_Suc)
  finally show ?case .
qed

lemma shift_out_8: "length xs = 8 \<Longrightarrow> shift_out w xs = zip (bits_of_byte w) xs"
  by (simp add: shift_out_le8 bits_of_byte_def)

lemma loaded_fields:
  "usicnt (loaded b h) = 0" "usioif (loaded b h) = False" "usidr (loaded b h) = b"
  "pulses (loaded b h) = pulses h" "di_line (loaded b h) = di_line h" "portb (loaded b h) = portb h"
  by (simp_all add: loaded_def usi_write_def BV_def USIOIF_def)

lemma incoming_loaded: "incoming (loaded b h) m = incoming h m"
  by (simp add: incoming_def loaded_fields)

lemma length_incoming [simp]: "length (incoming h m) = m"
  by (simp add: incoming_def)

lemma flagged_loaded: "flagged usi (strobes usi k (loaded b h)) = (16 \<le> k)"
  by (simp add: flagged_usi usioif_strobes loaded_fields)

lemma strobes_16_loaded:
  "usidr (strobes usi 16 (loaded b h)) = byte_of_bits (incoming h 8)"
  "pulses (strobes usi 16 (loaded b h))
     = pulses h @ zip (bits_of_byte b) (incoming h 8)"
  "portb (strobes usi 16 (loaded b h)) = portb h"
  using strobes_usi_even [of 8 "loaded b h"]
  by (simp_all add: loaded_fields incoming_loaded foldl_shift_in_8 shift_out_8)

lemma usi_sel [simp]: "dev_read usi = usi_read" "dev_write usi = usi_write"
  by (simp_all add: usi_def)

lemma SPISend_usi:
  "SPISend usi b s =
     Some (byte_of_bits (incoming (hw s) 8),
           s\<lparr>hw := strobes usi 16 (loaded b (hw s)),
             log := log s @ [Wr USIDR b, Wr USISR (BV USIOIF)] @ poll_log usi 16 (loaded b (hw s))
                    @ [Rd USIDR (byte_of_bits (incoming (hw s) 8))]\<rparr>)"
proof -
  let ?s2 = "wr usi USISR (BV USIOIF) (wr usi USIDR b s)"
  have hw2: "hw ?s2 = loaded b (hw s)"
    by (simp add: wr_def loaded_def)
  have log2: "log ?s2 = log s @ [Wr USIDR b, Wr USISR (BV USIOIF)]"
    by (simp add: wr_def)
  have "SPISend_loop usi ?s2 =
      Some (?s2\<lparr>hw := strobes usi 16 (hw ?s2), log := log ?s2 @ poll_log usi 16 (hw ?s2)\<rparr>)"
    by (rule loop_after) (simp_all add: hw2 flagged_loaded)
  then show ?thesis
    unfolding hw2 log2
    by (simp add: SPISend_def rd_def Let_def)
       (simp add: usi_read_def strobes_16_loaded wr_def)
qed

lemma responsive_usi: "responsive usi"
  by (simp add: responsive_def SPISend_usi)

section \<open>Framing of the register operations\<close>

lemma SPISend_Some:
  assumes "SPISend d b s = Some (r, s')"
  shows "\<exists>l. log s' = log s @ l \<and> wire l = [Tx b, Rx r]"
proof -
  let ?s2 = "wr d USISR (BV USIOIF) (wr d USIDR b s)"
  from assms obtain s3 where s3: "SPISend_loop d ?s2 = Some s3" and r: "(r, s') = rd d USIDR s3"
    by (auto simp: SPISend_def Let_def split: bind_splits)
  from loop_Some [OF s3] obtain n where
    "s3 = ?s2\<lparr>hw := strobes d n (hw ?s2), log := log ?s2 @ poll_log d n (hw ?s2)\<rparr>"
    by blast
  then have "log s3 = log s @ [Wr USIDR b, Wr USISR (BV USIOIF)] @ poll_log d n (hw ?s2)"
    by (simp add: wr_def)
  with r have "log s' = log s @ ([Wr USIDR b, Wr USISR (BV USIOIF)] @ poll_log d n (hw ?s2) @ [Rd USIDR r])"
    by (simp add: rd_def Let_def)
  moreover have "wire ([Wr USIDR b, Wr USISR (BV USIOIF)] @ poll_log d n (hw ?s2) @ [Rd USIDR r]) = [Tx b, Rx r]"
    by simp
  ultimately show ?thesis by blast
qed

lemma responsiveD: "responsive d \<Longrightarrow> \<exists>r s'. SPISend d b s = Some (r, s')"
proof -
  assume "responsive d"
  then have "SPISend d b s \<noteq> None"
    unfolding responsive_def by (elim allE)
  then show ?thesis by (cases "SPISend d b s") auto
qed

lemma SPISend_responsive:
  assumes "responsive d"
  shows "\<exists>r s' l. SPISend d b s = Some (r, s') \<and> log s' = log s @ l \<and> wire l = [Tx b, Rx r]"
  using responsiveD [OF assms, of b s] SPISend_Some by blast

lemma SELECT_log: "\<exists>l. log (SELECT d s) = log s @ l \<and> wire l = [CS True]"
proof -
  have "\<not> bit (p AND NOT (BV DIT4192_CS)) DIT4192_CS" for p :: u8
    by (simp add: bit_simps BV_def DIT4192_CS_def PB4_def)
  then show ?thesis
    by (simp add: SELECT_def rd_def wr_def Let_def)
qed

lemma DESELECT_log: "\<exists>l. log (DESELECT d s) = log s @ l \<and> wire l = [CS False]"
proof -
  have "bit (p OR BV DIT4192_CS) DIT4192_CS" for p :: u8
    by (simp add: bit_simps BV_def DIT4192_CS_def PB4_def)
  then show ?thesis
    by (simp add: DESELECT_def rd_def wr_def Let_def)
qed

lemma WriteReg_wire:
  assumes "responsive d"
  shows "\<exists>s' l r1 r2 r3. DIT4192WriteReg d a v s = Some s' \<and> log s' = log s @ l
           \<and> wire l = [CS True, Tx (a AND 0x3f), Rx r1, Tx 0xff, Rx r2, Tx v, Rx r3, CS False]"
proof -
  obtain l0 where l0: "log (SELECT d s) = log s @ l0" "wire l0 = [CS True]"
    using SELECT_log by blast
  obtain r1 s1 l1 where s1: "SPISend d (a AND 0x3f) (SELECT d s) = Some (r1, s1)"
      "log s1 = log (SELECT d s) @ l1" "wire l1 = [Tx (a AND 0x3f), Rx r1]"
    using SPISend_responsive [OF assms] by blast
  obtain r2 s2 l2 where s2: "SPISend d 0xff s1 = Some (r2, s2)"
      "log s2 = log s1 @ l2" "wire l2 = [Tx 0xff, Rx r2]"
    using SPISend_responsive [OF assms] by blast
  obtain r3 s3 l3 where s3: "SPISend d v s2 = Some (r3, s3)"
      "log s3 = log s2 @ l3" "wire l3 = [Tx v, Rx r3]"
    using SPISend_responsive [OF assms] by blast
  obtain l4 where l4: "log (DESELECT d s3) = log s3 @ l4" "wire l4 = [CS False]"
    using DESELECT_log by blast
  have "DIT4192WriteReg d a v s = Some (DESELECT d s3)"
    by (simp add: DIT4192WriteReg_def s1(1) s2(1) s3(1))
  moreover have "log (DESELECT d s3) = log s @ (l0 @ l1 @ l2 @ l3 @ l4)"
    by (simp add: l0 s1 s2 s3 l4)
  moreover have "wire (l0 @ l1 @ l2 @ l3 @ l4)
      = [CS True, Tx (a AND 0x3f), Rx r1, Tx 0xff, Rx r2, Tx v, Rx r3, CS False]"
    by (simp add: l0 s1 s2 s3 l4)
  ultimately show ?thesis by blast
qed

lemma ReadReg_wire:
  assumes "responsive d"
  shows "\<exists>val s' l r1 r2. DIT4192ReadReg d a s = Some (val, s') \<and> log s' = log s @ l
           \<and> wire l = [CS True, Tx ((a AND 0x3f) OR 0x80), Rx r1, Tx 0xff, Rx r2, Tx 0xff, Rx val, CS False]"
proof -
  obtain l0 where l0: "log (SELECT d s) = log s @ l0" "wire l0 = [CS True]"
    using SELECT_log by blast
  obtain r1 s1 l1 where s1: "SPISend d ((a AND 0x3f) OR 0x80) (SELECT d s) = Some (r1, s1)"
      "log s1 = log (SELECT d s) @ l1" "wire l1 = [Tx ((a AND 0x3f) OR 0x80), Rx r1]"
    using SPISend_responsive [OF assms] by blast
  obtain r2 s2 l2 where s2: "SPISend d 0xff s1 = Some (r2, s2)"
      "log s2 = log s1 @ l2" "wire l2 = [Tx 0xff, Rx r2]"
    using SPISend_responsive [OF assms] by blast
  obtain r3 s3 l3 where s3: "SPISend d 0xff s2 = Some (r3, s3)"
      "log s3 = log s2 @ l3" "wire l3 = [Tx 0xff, Rx r3]"
    using SPISend_responsive [OF assms] by blast
  obtain l4 where l4: "log (DESELECT d s3) = log s3 @ l4" "wire l4 = [CS False]"
    using DESELECT_log by blast
  have "DIT4192ReadReg d a s = Some (r3, DESELECT d s3)"
    by (simp add: DIT4192ReadReg_def s1(1) s2(1) s3(1))
  moreover have "log (DESELECT d s3) = log s @ (l0 @ l1 @ l2 @ l3 @ l4)"
    by (simp add: l0 s1 s2 s3 l4)
  moreover have "wire (l0 @ l1 @ l2 @ l3 @ l4)
      = [CS True, Tx ((a AND 0x3f) OR 0x80), Rx r1, Tx 0xff, Rx r2, Tx 0xff, Rx r3, CS False]"
    by (simp add: l0 s1 s2 s3 l4)
  ultimately show ?thesis by blast
qed

lemma command_bits:
  fixes reg :: u8
  shows "\<not> bit (reg AND 0x3f) 7" "\<not> bit (reg AND 0x3f) 6" "(reg AND 0x3f) AND 0x3f = reg AND 0x3f"
    "bit ((reg AND 0x3f) OR 0x80) 7" "\<not> bit ((reg AND 0x3f) OR 0x80) 6"
    "((reg AND 0x3f) OR 0x80) AND 0x3f = reg AND 0x3f"
  by (simp_all add: bit_and_iff bit_or_iff bit.conj_disj_distrib2 and.assoc)

text \<open>
  C1. On a device on which byte exchanges complete, \<^verbatim>\<open>DIT4192WriteReg (a, v)\<close> returns,
  for every 8-bit \<open>a\<close> (so for every address from 0 to 63) and every \<open>v\<close>, and the bus
  recorder has seen, in this order and nothing else: the chip selected, the byte
  \<open>a AND 0x3F\<close>, the dummy byte \<open>0xFF\<close>, the byte \<open>v\<close>, each followed by the read of
  the byte shifted in, and the chip deselected right after the third exchange. The three
  bytes shifted in appear only in these reads: the operation returns the state alone.
\<close>

theorem WriteReg_framing:
  assumes "responsive d"
  shows "\<exists>s' l r1 r2 r3. DIT4192WriteReg d a v s = Some s' \<and> log s' = log s @ l
           \<and> wire l = [CS True, Tx (a AND 0x3f), Rx r1, Tx 0xff, Rx r2, Tx v, Rx r3, CS False]"
  by (rule WriteReg_wire [OF assms])

theorem WriteReg_framing_witness:
  "responsive usi \<and>
   (\<exists>s' l r1 r2 r3. DIT4192WriteReg usi 0x03 0x14 boot = Some s' \<and> log s' = log boot @ l
      \<and> wire l = [CS True, Tx (0x03 AND 0x3f), Rx r1, Tx 0xff, Rx r2, Tx 0x14, Rx r3, CS False])"
  using responsive_usi WriteReg_framing [OF responsive_usi, of "0x03" "0x14" boot]
  by (rule conjI)

lemma di_line_strobes: "di_line (strobes usi (2 * m) h) = di_line h"
  using strobes_usi_even [of m h] by simp

lemma SPISend_usi_line:
  assumes "SPISend usi b s = Some (r, s')"
  shows "r = byte_of_bits (incoming (hw s) 8)" "di_line (hw s') = di_line (hw s)"
    "length (pulses (hw s')) = length (pulses (hw s)) + 8"
proof -
  from assms have r: "r = byte_of_bits (incoming (hw s) 8)"
    and s': "hw s' = strobes usi 16 (loaded b (hw s))"
    by (auto simp: SPISend_usi)
  show "r = byte_of_bits (incoming (hw s) 8)" by (rule r)
  show "di_line (hw s') = di_line (hw s)"
    using di_line_strobes [of 8 "loaded b (hw s)"] by (simp add: s' loaded_fields)
  show "length (pulses (hw s')) = length (pulses (hw s)) + 8"
    by (simp add: s' strobes_16_loaded bits_of_byte_def)
qed

lemma SELECT_usi_line:
  "di_line (hw (SELECT usi s)) = di_line (hw s)" "pulses (hw (SELECT usi s)) = pulses (hw s)"
  by (simp_all add: SELECT_def rd_def wr_def Let_def usi_write_def)

lemma ReadReg_usi_value:
  assumes "DIT4192ReadReg usi a s = Some (val, s')"
  shows "val = byte_of_bits (map (di_line (hw s)) [length (pulses (hw s)) + 16..<length (pulses (hw s)) + 24])"
proof -
  from assms obtain r1 s1 r2 s2 s3 where
    s1: "SPISend usi ((a AND 0x3f) OR 0x80) (SELECT usi s) = Some (r1, s1)" and
    s2: "SPISend usi 0xff s1 = Some (r2, s2)" and
    s3: "SPISend usi 0xff s2 = Some (val, s3)"
    by (auto simp: DIT4192ReadReg_def Let_def split: bind_splits)
  have "di_line (hw s2) = di_line (hw s)"
    by (simp add: SPISend_usi_line(2) [OF s2] SPISend_usi_line(2) [OF s1] SELECT_usi_line)
  moreover have "length (pulses (hw s2)) = length (pulses (hw s)) + 16"
    by (simp add: SPISend_usi_line(3) [OF s2] SPISend_usi_line(3) [OF s1] SELECT_usi_line)
  ultimately show ?thesis
    by (simp add: SPISend_usi_line(1) [OF s3] incoming_def add.assoc)
qed

lemma late_byte:
  "byte_of_bits (map (di_line (hw late_line)) [length (pulses (hw late_line)) + 16..<length (pulses (hw late_line)) + 24]) = 0xAA"
  by (simp add: late_line_def usi_reset_def byte_of_bits_def shift_in_def upt_rec_numeral)

text \<open>
  C2. On a device on which byte exchanges complete, \<^verbatim>\<open>DIT4192ReadReg (a)\<close> returns, for
  every 8-bit \<open>a\<close>, and the bus recorder has seen: the chip selected, the byte
  \<open>(a AND 0x3F) OR 0x80\<close>, the dummy byte \<open>0xFF\<close> twice, each followed by the read of the
  byte shifted in, and the chip deselected. The value returned is the byte read in the third
  exchange; the first two are not used.
\<close>

theorem ReadReg_framing:
  assumes "responsive d"
  shows "\<exists>val s' l r1 r2. DIT4192ReadReg d a s = Some (val, s') \<and> log s' = log s @ l
           \<and> wire l = [CS True, Tx ((a AND 0x3f) OR 0x80), Rx r1, Tx 0xff, Rx r2,
                        Tx 0xff, Rx val, CS False]"
  by (rule ReadReg_wire [OF assms])

theorem ReadReg_framing_witness:
  "responsive usi \<and>
   (\<exists>s' l r1 r2. DIT4192ReadReg usi 0x03 late_line = Some (0xAA, s') \<and> log s' = log late_line @ l
      \<and> wire l = [CS True, Tx 0x83, Rx r1, Tx 0xff, Rx r2, Tx 0xff, Rx 0xAA, CS False])"
proof
  show "responsive usi" by (rule responsive_usi)
next
  from ReadReg_framing [OF responsive_usi, of "0x03" late_line] obtain val s' l r1 r2 where
    s': "DIT4192ReadReg usi 0x03 late_line = Some (val, s')" "log s' = log late_line @ l"
      "wire l = [CS True, Tx ((0x03 AND 0x3f) OR 0x80), Rx r1, Tx 0xff, Rx r2,
                 Tx 0xff, Rx val, CS False]"
    by blast
  have val: "val = 0xAA"
    using ReadReg_usi_value [OF s'(1)] by (simp add: late_byte)
  have "wire l = [CS True, Tx 0x83, Rx r1, Tx 0xff, Rx r2, Tx 0xff, Rx 0xAA, CS False]"
    using s'(3) by (simp add: val)
  with s'(1,2) show "\<exists>s' l r1 r2. DIT4192ReadReg usi 0x03 late_line = Some (0xAA, s')
      \<and> log s' = log late_line @ l
      \<and> wire l = [CS True, Tx 0x83, Rx r1, Tx 0xff, Rx r2, Tx 0xff, Rx 0xAA, CS False]"
    unfolding val by blast
qed

text \<open>
  C5. For every 8-bit \<open>reg\<close>, whatever its top two bits, the first byte that a register
  operation puts on the bus after selecting the chip has bit 6 clear, bit 7 clear for
  \<^verbatim>\<open>DIT4192WriteReg\<close> and set for \<^verbatim>\<open>DIT4192ReadReg\<close>, and the low six bits of \<open>reg\<close>.
\<close>

theorem command_byte_bits:
  assumes "responsive d"
  shows "(\<exists>s' l c rest. DIT4192WriteReg d reg v s = Some s' \<and> log s' = log s @ l
            \<and> wire l = CS True # Tx c # rest
            \<and> \<not> bit c 7 \<and> \<not> bit c 6 \<and> c AND 0x3f = reg AND 0x3f)
       \<and> (\<exists>val s' l c rest. DIT4192ReadReg d reg s = Some (val, s') \<and> log s' = log s @ l
            \<and> wire l = CS True # Tx c # rest
            \<and> bit c 7 \<and> \<not> bit c 6 \<and> c AND 0x3f = reg AND 0x3f)"
proof
  from WriteReg_wire [OF assms, of reg v s] obtain s' l rest where
    "DIT4192WriteReg d reg v s = Some s'" "log s' = log s @ l"
    "wire l = CS True # Tx (reg AND 0x3f) # rest"
    by blast
  then show "\<exists>s' l c rest. DIT4192WriteReg d reg v s = Some s' \<and> log s' = log s @ l
      \<and> wire l = CS True # Tx c # rest \<and> \<not> bit c 7 \<and> \<not> bit c 6 \<and> c AND 0x3f = reg AND 0x3f"
    using command_bits(1-3) [of reg] by blast
next
  from ReadReg_wire [OF assms, of reg s] obtain val s' l rest where
    "DIT4192ReadReg d reg s = Some (val, s')" "log s' = log s @ l"
    "wire l = CS True # Tx ((reg AND 0x3f) OR 0x80) # rest"
    by blast
  then show "\<exists>val s' l c rest. DIT4192ReadReg d reg s = Some (val, s') \<and> log s' = log s @ l
      \<and> wire l = CS True # Tx c # rest \<and> bit c 7 \<and> \<not> bit c 6 \<and> c AND 0x3f = reg AND 0x3f"
    using command_bits(4-6) [of reg] by blast
qed

theorem command_byte_bits_witness:
  "responsive usi \<and>
   (\<exists>s' l c rest. DIT4192WriteReg usi 0xC3 0x14 boot = Some s' \<and> log s' = log boot @ l
            \<and> wire l = CS True # Tx c # rest
            \<and> \<not> bit c 7 \<and> \<not> bit c 6 \<and> c AND 0x3f = 0xC3 AND 0x3f)
       \<and> (\<exists>val s' l c rest. DIT4192ReadReg usi 0xC3 boot = Some (val, s') \<and> log s' = log boot @ l
            \<and> wire l = CS True # Tx c # rest
            \<and> bit c 7 \<and> \<not> bit c 6 \<and> c AND 0x3f = 0xC3 AND 0x3f)"
  using responsive_usi command_byte_bits [OF responsive_usi, of "0xC3" "0x14" boot]
  by (rule conjI)

text \<open>
  C8. The two register operations have no failure outcome: on a device on which byte
  exchanges complete, \<^verbatim>\<open>DIT4192WriteReg\<close> returns (a state and no value) and
  \<^verbatim>\<open>DIT4192ReadReg\<close> returns a byte, for every input and from every state. The only
  value of the model that is not a normal return is \<open>None\<close>, which stands for a polling
  loop that never ends.
\<close>

theorem no_failure_outcome:
  assumes "responsive d"
  shows "(\<exists>s'. DIT4192WriteReg d a v s = Some s') \<and> (\<exists>val s'. DIT4192ReadReg d a s = Some (val, s'))"
  using WriteReg_wire [OF assms, of a v s] ReadReg_wire [OF assms, of a s] by blast

theorem no_failure_outcome_witness:
  "responsive usi \<and> (\<exists>s'. DIT4192WriteReg usi 0x02 0x02 boot = Some s')
     \<and> (\<exists>val s'. DIT4192ReadReg usi 0x02 boot = Some (val, s'))"
  using responsive_usi no_failure_outcome [OF responsive_usi, of "0x02" "0x02" boot]
  by (rule conjI)

lemma polled_poll_log:
  assumes "\<forall>k<n. \<not> flagged d (strobes d k h)" and "flagged d (strobes d n h)"
  shows "polled (poll_log d n h) = replicate n False @ [True]"
  using assms
proof (induction n arbitrary: h)
  case 0
  then show ?case by (simp add: flagged_def)
next
  case (Suc n)
  have nf: "\<not> flagged d h"
    using Suc.prems(1) [rule_format, of 0] by simp
  have "\<forall>k<n. \<not> flagged d (strobes d k (strobe d h))"
  proof (intro allI impI)
    fix k assume "k < n"
    then show "\<not> flagged d (strobes d k (strobe d h))"
      using Suc.prems(1) [rule_format, of "Suc k"] by simp
  qed
  moreover have "flagged d (strobes d n (strobe d h))"
    using Suc.prems(2) by simp
  ultimately have "polled (poll_log d n (strobe d h)) = replicate n False @ [True]"
    by (rule Suc.IH)
  then show ?case
    using nf by (simp add: flagged_def)
qed

lemma first_flagged:
  assumes "flagged d (strobes d m h)"
  shows "\<exists>n. (\<forall>k<n. \<not> flagged d (strobes d k h)) \<and> flagged d (strobes d n h)"
proof -
  let ?n = "LEAST n. flagged d (strobes d n h)"
  have "flagged d (strobes d ?n h)"
    using assms by (rule LeastI)
  moreover have "\<forall>k<?n. \<not> flagged d (strobes d k h)"
    using not_less_Least by blast
  ultimately show ?thesis by blast
qed

lemma SPISend_unfold:
  "SPISend d b s =
     map_option (rd d USIDR) (SPISend_loop d (wr d USISR (BV USIOIF) (wr d USIDR b s)))"
  by (cases "SPISend_loop d (wr d USISR (BV USIOIF) (wr d USIDR b s))")
     (simp_all add: SPISend_def Let_def)

lemma hw_loaded_generic:
  "hw (wr d USISR (BV USIOIF) (wr d USIDR b s)) = dev_write d USISR (BV USIOIF) (dev_write d USIDR b (hw s))"
  "log (wr d USISR (BV USIOIF) (wr d USIDR b s)) = log s @ [Wr USIDR b, Wr USISR (BV USIOIF)]"
  by (simp_all add: wr_def)

text \<open>
  C7. On any device, \<^verbatim>\<open>SPISend\<close> never returns exactly when \<^verbatim>\<open>USISR\<close> reads with
  \<^verbatim>\<open>USIOIF\<close> clear after every number of strobes: the poll has no bound. When it does
  return, what it has recorded after loading the byte and writing \<^verbatim>\<open>USISR\<close> is a run of
  polls that read the flag clear, each followed by one strobe, then one poll that read the
  flag set, and only then the read of \<^verbatim>\<open>USIDR\<close> whose value it returns.
\<close>

theorem SPISend_waits:
  "(SPISend d b s = None)
     = (\<forall>n. \<not> flagged d (strobes d n (dev_write d USISR (BV USIOIF) (dev_write d USIDR b (hw s)))))
   \<and> (\<forall>r s'. SPISend d b s = Some (r, s') \<longrightarrow>
        (\<exists>n polls. log s' = log s @ [Wr USIDR b, Wr USISR (BV USIOIF)] @ polls @ [Rd USIDR r]
           \<and> polls = poll_log d n (dev_write d USISR (BV USIOIF) (dev_write d USIDR b (hw s)))
           \<and> polled polls = replicate n False @ [True]))"
proof (intro conjI allI impI)
  let ?s2 = "wr d USISR (BV USIOIF) (wr d USIDR b s)"
  let ?h2 = "dev_write d USISR (BV USIOIF) (dev_write d USIDR b (hw s))"
  show "(SPISend d b s = None) = (\<forall>n. \<not> flagged d (strobes d n ?h2))"
  proof
    assume none: "SPISend d b s = None"
    show "\<forall>n. \<not> flagged d (strobes d n ?h2)"
    proof (intro allI notI)
      fix m assume "flagged d (strobes d m ?h2)"
      from first_flagged [OF this] obtain n where
        "\<forall>k<n. \<not> flagged d (strobes d k (hw ?s2))" "flagged d (strobes d n (hw ?s2))"
        unfolding hw_loaded_generic by blast
      from loop_after [OF this] have "SPISend_loop d ?s2 \<noteq> None" by simp
      with none show False by (simp add: SPISend_unfold)
    qed
  next
    assume never: "\<forall>n. \<not> flagged d (strobes d n ?h2)"
    show "SPISend d b s = None"
    proof (cases "SPISend_loop d ?s2")
      case None
      then show ?thesis by (simp add: SPISend_unfold)
    next
      case (Some s3)
      from loop_Some [OF this] never show ?thesis
        unfolding hw_loaded_generic by blast
    qed
  qed
next
  fix r s' assume some: "SPISend d b s = Some (r, s')"
  let ?s2 = "wr d USISR (BV USIOIF) (wr d USIDR b s)"
  from some obtain s3 where s3: "SPISend_loop d ?s2 = Some s3" and r: "(r, s') = rd d USIDR s3"
    by (auto simp: SPISend_unfold)
  from loop_Some [OF s3] obtain n where
    n: "\<forall>k<n. \<not> flagged d (strobes d k (hw ?s2))" "flagged d (strobes d n (hw ?s2))"
      "s3 = ?s2\<lparr>hw := strobes d n (hw ?s2), log := log ?s2 @ poll_log d n (hw ?s2)\<rparr>"
    by blast
  have "log s' = log s @ [Wr USIDR b, Wr USISR (BV USIOIF)] @ poll_log d n (hw ?s2) @ [Rd USIDR r]"
    using r n(3) by (simp add: rd_def Let_def hw_loaded_generic)
  moreover have "polled (poll_log d n (hw ?s2)) = replicate n False @ [True]"
    using n(1,2) by (rule polled_poll_log)
  ultimately show "\<exists>n polls. log s' = log s @ [Wr USIDR b, Wr USISR (BV USIOIF)] @ polls @ [Rd USIDR r]
      \<and> polls = poll_log d n (dev_write d USISR (BV USIOIF) (dev_write d USIDR b (hw s)))
      \<and> polled polls = replicate n False @ [True]"
    unfolding hw_loaded_generic by blast
qed

theorem SPISend_waits_witness:
  "SPISend stuck 0xA5 \<lparr>hw = (), log = []\<rparr> = None
   \<and> (\<exists>r s' n polls. SPISend usi 0xA5 boot = Some (r, s')
        \<and> log s' = log boot @ [Wr USIDR 0xA5, Wr USISR (BV USIOIF)] @ polls @ [Rd USIDR r]
        \<and> polled polls = replicate n False @ [True])"
proof
  have "\<forall>n. \<not> flagged stuck (strobes stuck n
      (dev_write stuck USISR (BV USIOIF) (dev_write stuck USIDR 0xA5 (hw \<lparr>hw = (), log = []\<rparr>))))"
    by (simp add: flagged_def stuck_def)
  then show "SPISend stuck 0xA5 \<lparr>hw = (), log = []\<rparr> = None"
    using SPISend_waits [of stuck "0xA5" "\<lparr>hw = (), log = []\<rparr>"] by blast
next
  obtain r s' where "SPISend usi 0xA5 boot = Some (r, s')"
    using SPISend_usi [of "0xA5" boot] by blast
  then show "\<exists>r s' n polls. SPISend usi 0xA5 boot = Some (r, s')
        \<and> log s' = log boot @ [Wr USIDR 0xA5, Wr USISR (BV USIOIF)] @ polls @ [Rd USIDR r]
        \<and> polled polls = replicate n False @ [True]"
    using SPISend_waits [of usi "0xA5" boot] by blast
qed

lemma do_call_wire:
  assumes "responsive d"
  shows "\<exists>s' l x1 x2 x3 r1 r2 r3. do_call d c s = Some s' \<and> log s' = log s @ l
           \<and> wire l = [CS True, Tx x1, Rx r1, Tx x2, Rx r2, Tx x3, Rx r3, CS False]"
proof (cases c)
  case (Write a v)
  from WriteReg_wire [OF assms, of a v s] show ?thesis
    unfolding Write do_call.simps by blast
next
  case (Read a)
  from ReadReg_wire [OF assms, of a s] obtain val s' l r1 r2 where
    "DIT4192ReadReg d a s = Some (val, s')" "log s' = log s @ l"
    "wire l = [CS True, Tx ((a AND 0x3f) OR 0x80), Rx r1, Tx 0xff, Rx r2, Tx 0xff, Rx val, CS False]"
    by blast
  then have "do_call d c s = Some s' \<and> log s' = log s @ l
      \<and> wire l = [CS True, Tx ((a AND 0x3f) OR 0x80), Rx r1, Tx 0xff, Rx r2, Tx 0xff, Rx val, CS False]"
    by (simp add: Read)
  then show ?thesis by blast
qed

lemma windows_one:
  "windows None ([CS True, Tx x1, Rx r1, Tx x2, Rx r2, Tx x3, Rx r3, CS False] @ w)
     = map_option ((#) [Tx x1, Rx r1, Tx x2, Rx r2, Tx x3, Rx r3]) (windows None w)"
  by simp

lemma do_calls_windows:
  assumes "responsive d"
  shows "\<exists>s' l ws. do_calls d cs s = Some s' \<and> log s' = log s @ l
           \<and> windows None (wire l) = Some ws
           \<and> map (\<lambda>w. length (sent w)) ws = replicate (length cs) 3"
proof (induction cs arbitrary: s)
  case Nil
  have "do_calls d [] s = Some s \<and> log s = log s @ [] \<and> windows None (wire []) = Some []
      \<and> map (\<lambda>w. length (sent w)) [] = replicate (length ([] :: call list)) 3"
    by simp
  then show ?case by blast
next
  case (Cons c cs)
  from do_call_wire [OF assms, of c s] obtain s1 l1 x1 x2 x3 r1 r2 r3 where
    c: "do_call d c s = Some s1" "log s1 = log s @ l1"
      "wire l1 = [CS True, Tx x1, Rx r1, Tx x2, Rx r2, Tx x3, Rx r3, CS False]"
    by blast
  from Cons.IH [of s1] obtain s' l ws where
    cs: "do_calls d cs s1 = Some s'" "log s' = log s1 @ l" "windows None (wire l) = Some ws"
      "map (\<lambda>w. length (sent w)) ws = replicate (length cs) 3"
    by blast
  have "do_calls d (c # cs) s = Some s'"
    by (simp add: c(1) cs(1))
  moreover have "log s' = log s @ (l1 @ l)"
    by (simp add: c(2) cs(2))
  moreover have "windows None (wire (l1 @ l)) = Some ([Tx x1, Rx r1, Tx x2, Rx r2, Tx x3, Rx r3] # ws)"
    unfolding wire_append c(3) windows_one cs(3) by simp
  moreover have "map (\<lambda>w. length (sent w)) ([Tx x1, Rx r1, Tx x2, Rx r2, Tx x3, Rx r3] # ws)
      = replicate (length (c # cs)) 3"
    by (simp add: cs(4))
  ultimately show ?case by blast
qed

text \<open>
  C4. On a device on which byte exchanges complete, any sequence of calls of the two
  register operations returns, and the bus log it leaves splits into select windows, one for
  each call and in the same order: each window opens with the chip being selected and closes
  with it being deselected, the next opens only after the previous has closed, each holds
  exactly three byte exchanges, and no byte moves outside a window.
\<close>

theorem select_exclusive:
  assumes "responsive d"
  shows "\<exists>s' l ws. do_calls d cs s = Some s' \<and> log s' = log s @ l
           \<and> windows None (wire l) = Some ws
           \<and> map (\<lambda>w. length (sent w)) ws = replicate (length cs) 3"
  by (rule do_calls_windows [OF assms])

theorem select_exclusive_witness:
  "responsive usi \<and>
   (\<exists>s' l ws. do_calls usi [Write 0x03 0x14, Read 0x03, Write 0x02 0x02] boot = Some s'
      \<and> log s' = log boot @ l \<and> windows None (wire l) = Some ws
      \<and> map (\<lambda>w. length (sent w)) ws = replicate (length [Write 0x03 0x14, Read 0x03, Write 0x02 0x02]) 3)"
  using responsive_usi
    select_exclusive [OF responsive_usi, of "[Write 0x03 0x14, Read 0x03, Write 0x02 0x02]" boot]
  by (rule conjI)

lemma fold_tail_step_snd: "snd (fold tail_step wakes c) = snd c"
proof (induction wakes arbitrary: c)
  case Nil
  show ?case by simp
next
  case (Cons w wakes)
  obtain p s where c: "c = (p, s)" by (cases c)
  have "snd (tail_step w (p, s)) = s"
    by (cases p) simp_all
  then show ?case
    using Cons.IH [of "tail_step w c"] by (simp add: c)
qed

lemma fold_tail_step_spin: "fold tail_step wakes (At_while_1, s) = (At_while_1, s)"
  by (induction wakes) simp_all

lemma main_Some:
  assumes "main_init d s = Some s'"
  shows "\<exists>pc. main d wakes s = Some (pc, s')"
proof -
  have "main d wakes s = Some (fold tail_step wakes (At_sleep_cpu, s'))"
    by (simp add: main_def assms)
  moreover have "snd (fold tail_step wakes (At_sleep_cpu, s')) = s'"
    by (simp add: fold_tail_step_snd)
  ultimately show ?thesis
    by (metis prod.collapse)
qed

lemma main_spin_stays:
  assumes "main_init d s = Some s'" and "main d w1 s = Some (At_while_1, s')"
  shows "main d (w1 @ w2) s = Some (At_while_1, s')"
proof -
  from assms have "fold tail_step w1 (At_sleep_cpu, s') = (At_while_1, s')"
    by (simp add: main_def)
  then show ?thesis
    by (simp add: main_def assms(1) fold_tail_step_spin)
qed

lemma main_init_log:
  assumes "responsive d"
  shows "\<exists>s' p post r1 r2 r3 r4 r5 r6. main_init d s = Some s'
     \<and> log s' = log s @ [Wr DDRB 0x16, Rd PORTB p, Wr PORTB (p OR 0x10), Delay_ms 5] @ post
     \<and> wire post = [CS True, Tx 0x03, Rx r1, Tx 0xff, Rx r2, Tx 0x14, Rx r3, CS False,
                     CS True, Tx 0x02, Rx r4, Tx 0xff, Rx r5, Tx 0x02, Rx r6, CS False]"
proof -
  let ?s3 = "emit (Delay_ms 5) (DESELECT d (wr d DDRB (BV DIT4192_CS OR BV SCK OR BV DOUT) s))"
  let ?p = "dev_read d PORTB (dev_write d DDRB 0x16 (hw s))"
  have log3: "log ?s3 = log s @ [Wr DDRB 0x16, Rd PORTB ?p, Wr PORTB (?p OR 0x10), Delay_ms 5]"
    by (simp add: emit_def DESELECT_def wr_def rd_def Let_def BV_simps)
  from WriteReg_wire [OF assms, of AUDIO_SERIAL_PORT_CONTROL "BV JUS OR BV WLEN0" ?s3]
  obtain s4 l1 r1 r2 r3 where s4:
    "DIT4192WriteReg d AUDIO_SERIAL_PORT_CONTROL (BV JUS OR BV WLEN0) ?s3 = Some s4"
    "log s4 = log ?s3 @ l1"
    "wire l1 = [CS True, Tx 0x03, Rx r1, Tx 0xff, Rx r2, Tx 0x14, Rx r3, CS False]"
    by (auto simp: AUDIO_SERIAL_PORT_CONTROL_def BV_simps)
  from WriteReg_wire [OF assms, of POWER_DOWN_AND_CLOCK_CONTROL "BV CLK0" s4]
  obtain s5 l2 r4 r5 r6 where s5:
    "DIT4192WriteReg d POWER_DOWN_AND_CLOCK_CONTROL (BV CLK0) s4 = Some s5"
    "log s5 = log s4 @ l2"
    "wire l2 = [CS True, Tx 0x02, Rx r4, Tx 0xff, Rx r5, Tx 0x02, Rx r6, CS False]"
    by (auto simp: POWER_DOWN_AND_CLOCK_CONTROL_def BV_simps)
  let ?s' = "emit Sleep_cpu (emit Set_sleep_mode_PWR_DOWN (emit Cli s5))"
  have "main_init d s = Some ?s'"
    by (simp add: main_init_def Let_def s4(1) s5(1))
  moreover have "log ?s' = log s @ [Wr DDRB 0x16, Rd PORTB ?p, Wr PORTB (?p OR 0x10), Delay_ms 5]
      @ (l1 @ l2 @ [Cli, Set_sleep_mode_PWR_DOWN, Sleep_cpu])"
  proof -
    have "log ?s' = log s5 @ [Cli, Set_sleep_mode_PWR_DOWN, Sleep_cpu]"
      by (simp add: emit_def)
    then show ?thesis
      unfolding s5(2) s4(2) log3 by simp
  qed
  moreover have "wire (l1 @ l2 @ [Cli, Set_sleep_mode_PWR_DOWN, Sleep_cpu])
      = [CS True, Tx 0x03, Rx r1, Tx 0xff, Rx r2, Tx 0x14, Rx r3, CS False,
         CS True, Tx 0x02, Rx r4, Tx 0xff, Rx r5, Tx 0x02, Rx r6, CS False]"
    by (simp add: s4(3) s5(3))
  ultimately show ?thesis by blast
qed

text \<open>
  C3. On a device on which byte exchanges complete, \<^verbatim>\<open>main\<close> configures the pins,
  deselects the chip and waits 5 ms; what the bus carries after the delay is exactly the
  write of \<open>0x14\<close> to register \<open>0x03\<close> followed by the write of \<open>0x02\<close> to register
  \<open>0x02\<close>; and at every later observation, whether or not the processor has left the
  sleep, the hardware and the log are the ones reached then: no further access is made.
\<close>

theorem main_two_writes:
  assumes "responsive d"
  shows "\<exists>s' p post r1 r2 r3 r4 r5 r6. main_init d s = Some s'
     \<and> log s' = log s @ [Wr DDRB 0x16, Rd PORTB p, Wr PORTB (p OR 0x10), Delay_ms 5] @ post
     \<and> wire post = [CS True, Tx 0x03, Rx r1, Tx 0xff, Rx r2, Tx 0x14, Rx r3, CS False,
                     CS True, Tx 0x02, Rx r4, Tx 0xff, Rx r5, Tx 0x02, Rx r6, CS False]
     \<and> (\<forall>wakes. \<exists>pc. main d wakes s = Some (pc, s'))"
  using main_init_log [OF assms, of s] main_Some [of d s] by metis


theorem main_two_writes_witness:
  "responsive usi \<and>
   (\<exists>s' p post r1 r2 r3 r4 r5 r6. main_init usi boot = Some s'
     \<and> log s' = log boot @ [Wr DDRB 0x16, Rd PORTB p, Wr PORTB (p OR 0x10), Delay_ms 5] @ post
     \<and> wire post = [CS True, Tx 0x03, Rx r1, Tx 0xff, Rx r2, Tx 0x14, Rx r3, CS False,
                     CS True, Tx 0x02, Rx r4, Tx 0xff, Rx r5, Tx 0x02, Rx r6, CS False]
     \<and> (\<forall>wakes. \<exists>pc. main usi wakes boot = Some (pc, s')))"
  using responsive_usi main_two_writes [OF responsive_usi, of boot]
  by (rule conjI)

lemma sent_append: "sent (w1 @ w2) = sent w1 @ sent w2"
  by (induction w1 rule: sent.induct) simp_all

lemma main_init_sent:
  assumes "responsive d"
  shows "\<exists>s' l. main_init d s = Some s' \<and> log s' = log s @ l
           \<and> sent (wire l) = [0x03, 0xff, 0x14, 0x02, 0xff, 0x02]"
proof -
  from main_init_log [OF assms, of s] obtain s' p post r1 r2 r3 r4 r5 r6 where
    s': "main_init d s = Some s'"
      "log s' = log s @ [Wr DDRB 0x16, Rd PORTB p, Wr PORTB (p OR 0x10), Delay_ms 5] @ post"
      "wire post = [CS True, Tx 0x03, Rx r1, Tx 0xff, Rx r2, Tx 0x14, Rx r3, CS False,
                    CS True, Tx 0x02, Rx r4, Tx 0xff, Rx r5, Tx 0x02, Rx r6, CS False]"
    by blast
  have "sent (wire ([Wr DDRB 0x16, Rd PORTB p, Wr PORTB (p OR 0x10), Delay_ms 5] @ post))
      = [0x03, 0xff, 0x14, 0x02, 0xff, 0x02]"
    by (simp add: s'(3))
  with s'(1,2) show ?thesis by blast
qed

lemma main_twice_sent:
  assumes "responsive d" and "main_init d s = Some s'"
  shows "\<exists>pc s''. main_twice d w1 w2 s = Some (pc, s'')
           \<and> sent (wire (drop (length (log s')) (log s''))) = [0x03, 0xff, 0x14, 0x02, 0xff, 0x02]"
proof -
  from main_Some [OF assms(2), of w1] obtain pc1 where
    first: "main d w1 s = Some (pc1, s')"
    by blast
  from main_init_sent [OF assms(1), of s'] obtain s'' l where
    s'': "main_init d s' = Some s''" "log s'' = log s' @ l"
      "sent (wire l) = [0x03, 0xff, 0x14, 0x02, 0xff, 0x02]"
    by blast
  from main_Some [OF s''(1), of w2] obtain pc2 where
    second: "main d w2 s' = Some (pc2, s'')"
    by blast
  have "main_twice d w1 w2 s = Some (pc2, s'')"
    by (simp add: main_twice_def first second)
  moreover have "sent (wire (drop (length (log s')) (log s''))) = [0x03, 0xff, 0x14, 0x02, 0xff, 0x02]"
    by (simp add: s''(2,3))
  ultimately show ?thesis by blast
qed

text \<open>
  C9, as the source has it. On a device on which byte exchanges complete, one invocation of
  \<^verbatim>\<open>main\<close> sends the six bytes of the two configuration writes once, whatever the
  processor does at \<^verbatim>\<open>sleep_cpu ()\<close>: at every observation the hardware and the log are
  those reached when the sleep was requested, and once control is in \<^verbatim>\<open>while (1);\<close> it
  stays there, so the invocation itself never configures again. Nothing records that the
  configuration has been done: when the entry point is invoked again, from wherever the first
  invocation has got to, the same six bytes are sent again.
\<close>

theorem parked_within_invocation:
  assumes "responsive d"
  shows "\<exists>s'. main_init d s = Some s'
     \<and> sent (wire (drop (length (log s)) (log s'))) = [0x03, 0xff, 0x14, 0x02, 0xff, 0x02]
     \<and> (\<forall>wakes. \<exists>pc. main d wakes s = Some (pc, s'))
     \<and> (\<forall>w1 w2. main d w1 s = Some (At_while_1, s') \<longrightarrow> main d (w1 @ w2) s = Some (At_while_1, s'))
     \<and> (\<forall>w1 w2. \<exists>pc s''. main_twice d w1 w2 s = Some (pc, s'')
           \<and> sent (wire (drop (length (log s')) (log s''))) = [0x03, 0xff, 0x14, 0x02, 0xff, 0x02])"
proof -
  from main_init_sent [OF assms, of s] obtain s' l where
    s': "main_init d s = Some s'" "log s' = log s @ l"
      "sent (wire l) = [0x03, 0xff, 0x14, 0x02, 0xff, 0x02]"
    by blast
  have "sent (wire (drop (length (log s)) (log s'))) = [0x03, 0xff, 0x14, 0x02, 0xff, 0x02]"
    by (simp add: s'(2,3))
  moreover have "\<forall>wakes. \<exists>pc. main d wakes s = Some (pc, s')"
    using main_Some [OF s'(1)] by blast
  moreover have "\<forall>w1 w2. main d w1 s = Some (At_while_1, s') \<longrightarrow> main d (w1 @ w2) s = Some (At_while_1, s')"
    using main_spin_stays [OF s'(1)] by blast
  moreover have "\<forall>w1 w2. \<exists>pc s''. main_twice d w1 w2 s = Some (pc, s'')
      \<and> sent (wire (drop (length (log s')) (log s''))) = [0x03, 0xff, 0x14, 0x02, 0xff, 0x02]"
    using main_twice_sent [OF assms s'(1)] by blast
  ultimately show ?thesis
    using s'(1) by blast
qed

theorem parked_within_invocation_witness:
  "responsive usi \<and>
   (\<exists>s'. main_init usi boot = Some s'
     \<and> sent (wire (drop (length (log boot)) (log s'))) = [0x03, 0xff, 0x14, 0x02, 0xff, 0x02]
     \<and> main usi [] boot = Some (At_sleep_cpu, s')
     \<and> main usi [False, True] boot = Some (At_while_1, s')
     \<and> main usi ([False, True] @ [True, False]) boot = Some (At_while_1, s')
     \<and> (\<exists>pc s''. main_twice usi [False, True] [True] boot = Some (pc, s'')
           \<and> sent (wire (drop (length (log s')) (log s''))) = [0x03, 0xff, 0x14, 0x02, 0xff, 0x02]))"
proof
  show "responsive usi" by (rule responsive_usi)
next
  from parked_within_invocation [OF responsive_usi, of boot] obtain s' where
    s': "main_init usi boot = Some s'"
      "sent (wire (drop (length (log boot)) (log s'))) = [0x03, 0xff, 0x14, 0x02, 0xff, 0x02]"
      "\<forall>w1 w2. main usi w1 boot = Some (At_while_1, s')
          \<longrightarrow> main usi (w1 @ w2) boot = Some (At_while_1, s')"
      "\<forall>w1 w2. \<exists>pc s''. main_twice usi w1 w2 boot = Some (pc, s'')
          \<and> sent (wire (drop (length (log s')) (log s''))) = [0x03, 0xff, 0x14, 0x02, 0xff, 0x02]"
    by blast
  have a: "main usi [] boot = Some (At_sleep_cpu, s')"
    by (simp add: main_def s'(1))
  have b: "main usi [False, True] boot = Some (At_while_1, s')"
    by (simp add: main_def s'(1))
  from s'(3) b have c: "main usi ([False, True] @ [True, False]) boot = Some (At_while_1, s')"
    by blast
  from s'(4) have "\<exists>pc s''. main_twice usi [False, True] [True] boot = Some (pc, s'')
      \<and> sent (wire (drop (length (log s')) (log s''))) = [0x03, 0xff, 0x14, 0x02, 0xff, 0x02]"
    by blast
  with s'(1,2) a b c show "\<exists>s'. main_init usi boot = Some s'
     \<and> sent (wire (drop (length (log boot)) (log s'))) = [0x03, 0xff, 0x14, 0x02, 0xff, 0x02]
     \<and> main usi [] boot = Some (At_sleep_cpu, s')
     \<and> main usi [False, True] boot = Some (At_while_1, s')
     \<and> main usi ([False, True] @ [True, False]) boot = Some (At_while_1, s')
     \<and> (\<exists>pc s''. main_twice usi [False, True] [True] boot = Some (pc, s'')
           \<and> sent (wire (drop (length (log s')) (log s''))) = [0x03, 0xff, 0x14, 0x02, 0xff, 0x02])"
    by blast
qed

text \<open>
  C9 as stated fails on the source: with the first invocation parked in \<^verbatim>\<open>while (1);\<close>,
  a second invocation of the entry point sends the six bytes of the two writes a second
  time, so the bus has carried twelve bytes.
\<close>

theorem reinvoke_counterexample:
  "map_option fst (main usi [True] boot) = Some At_while_1
   \<and> map_option (sent \<circ> wire \<circ> log \<circ> snd) (main_twice usi [True] [True] boot)
       = Some [0x03, 0xff, 0x14, 0x02, 0xff, 0x02, 0x03, 0xff, 0x14, 0x02, 0xff, 0x02]"
proof -
  from main_init_sent [OF responsive_usi, of boot] obtain s1 l1 where
    s1: "main_init usi boot = Some s1" "log s1 = log boot @ l1"
      "sent (wire l1) = [0x03, 0xff, 0x14, 0x02, 0xff, 0x02]"
    by blast
  from main_init_sent [OF responsive_usi, of s1] obtain s2 l2 where
    s2: "main_init usi s1 = Some s2" "log s2 = log s1 @ l2"
      "sent (wire l2) = [0x03, 0xff, 0x14, 0x02, 0xff, 0x02]"
    by blast
  have first: "main usi [True] boot = Some (At_while_1, s1)"
    by (simp add: main_def s1(1))
  have second: "main usi [True] s1 = Some (At_while_1, s2)"
    by (simp add: main_def s2(1))
  have "log s2 = l1 @ l2"
    by (simp add: s2(2) s1(2) boot_def)
  then have "sent (wire (log s2))
      = [0x03, 0xff, 0x14, 0x02, 0xff, 0x02, 0x03, 0xff, 0x14, 0x02, 0xff, 0x02]"
    by (simp add: sent_append s1(3) s2(3))
  then show ?thesis
    by (simp add: main_twice_def first second)
qed

lemma upt8: "[0..<8] = [0,1,2,3,4,5,6,7]"
  by code_simp

lemma bits_of_A5: "bits_of_byte 0xA5 = [True, False, True, False, False, True, False, True]"
  by (simp add: bits_of_byte_def upt8)

lemma incoming_boot: "incoming (hw boot) 8 = [True, False, True, False, True, False, True, False]"
  by (simp add: incoming_def boot_def usi_reset_def upt8)

lemma byte_of_incoming_boot: "byte_of_bits [True, False, True, False, True, False, True, False] = 0xAA"
  by (simp add: byte_of_bits_def shift_in_def)

lemma byte_of_bits_of_byte: "byte_of_bits (bits_of_byte w) = w"
proof (rule bit_word_eqI)
  fix i assume "i < LENGTH(8)"
  then have i: "i < 8" by simp
  then have "7 - i < 8" "7 - (7 - i) = i" by arith+
  then have "rev (bits_of_byte w) ! i = bit w i"
    using i by (simp add: bits_of_byte_def rev_nth del: upt_Suc)
  then show "bit (byte_of_bits (bits_of_byte w)) i = bit w i"
    using i by (simp add: byte_of_bits_def bit_foldl_shift_in bits_of_byte_def)
qed


lemma count_strobes_poll_log:
  "count_list (poll_log d n h) (Wr USICR (BV USIWM0 OR BV USICS1 OR BV USICLK OR BV USITC)) = n"
  by (induction n arbitrary: h) simp_all

lemma SPISend_usi_hw:
  "\<exists>s'. SPISend usi b s = Some (byte_of_bits (incoming (hw s) 8), s')
     \<and> hw s' = strobes usi 16 (loaded b (hw s))
     \<and> log s' = log s @ [Wr USIDR b, Wr USISR (BV USIOIF)] @ poll_log usi 16 (loaded b (hw s))
                  @ [Rd USIDR (byte_of_bits (incoming (hw s) 8))]"
  by (simp add: SPISend_usi)

text \<open>
  C6. On the serial peripheral, from every state and for every byte \<open>b\<close>, \<^verbatim>\<open>SPISend\<close>
  returns after exactly 16 strobes of the clock line, that is 8 clock pulses, which leave the
  line at the level it had. The 8 shifts pair the bits of \<open>b\<close>, most significant first,
  with the bits of the byte returned, most significant first, one pair for each pulse; and
  the bits of the byte returned are the levels of the data-in line at these 8 pulses.
\<close>

theorem SPISend_full_duplex:
  "\<exists>r s' l. SPISend usi b s = Some (r, s') \<and> log s' = log s @ l
     \<and> count_list l (Wr USICR (BV USIWM0 OR BV USICS1 OR BV USICLK OR BV USITC)) = 16
     \<and> portb (hw s') = portb (hw s)
     \<and> pulses (hw s') = pulses (hw s) @ zip (bits_of_byte b) (bits_of_byte r)
     \<and> bits_of_byte r = incoming (hw s) 8"
proof -
  let ?r = "byte_of_bits (incoming (hw s) 8)"
  let ?l = "[Wr USIDR b, Wr USISR (BV USIOIF)] @ poll_log usi 16 (loaded b (hw s)) @ [Rd USIDR ?r]"
  from SPISend_usi_hw [of b s] obtain s' where
    s': "SPISend usi b s = Some (?r, s')" "hw s' = strobes usi 16 (loaded b (hw s))"
      "log s' = log s @ ?l"
    by blast
  have bits: "bits_of_byte ?r = incoming (hw s) 8"
    by (simp add: bits_of_byte_of_bits)
  have "count_list ?l (Wr USICR (BV USIWM0 OR BV USICS1 OR BV USICLK OR BV USITC)) = 16"
    by (simp add: count_strobes_poll_log)
  moreover have "portb (hw s') = portb (hw s)"
    by (simp add: s'(2) strobes_16_loaded)
  moreover have "pulses (hw s') = pulses (hw s) @ zip (bits_of_byte b) (bits_of_byte ?r)"
    by (simp add: s'(2) strobes_16_loaded bits)
  ultimately show ?thesis
    using s'(1,3) bits by blast
qed

theorem SPISend_full_duplex_witness:
  "\<exists>s' l. SPISend usi 0xA5 boot = Some (0xAA, s') \<and> log s' = log boot @ l
     \<and> count_list l (Wr USICR 0x1B) = 16
     \<and> pulses (hw s') = [(True, True), (False, False), (True, True), (False, False),
                          (False, True), (True, False), (False, True), (True, False)]"
proof -
  from SPISend_full_duplex [of "0xA5" boot] obtain r s' l where
    s': "SPISend usi 0xA5 boot = Some (r, s')" "log s' = log boot @ l"
      "count_list l (Wr USICR (BV USIWM0 OR BV USICS1 OR BV USICLK OR BV USITC)) = 16"
      "pulses (hw s') = pulses (hw boot) @ zip (bits_of_byte 0xA5) (bits_of_byte r)"
      "bits_of_byte r = incoming (hw boot) 8"
    by blast
  have "byte_of_bits (bits_of_byte r) = byte_of_bits (incoming (hw boot) 8)"
    by (simp add: s'(5))
  then have r: "r = 0xAA"
    by (simp add: byte_of_bits_of_byte incoming_boot byte_of_incoming_boot)
  have "pulses (hw s') = [(True, True), (False, False), (True, True), (False, False),
                          (False, True), (True, False), (False, True), (True, False)]"
    unfolding s'(4,5) bits_of_A5 incoming_boot by (simp add: boot_def usi_reset_def)
  then show ?thesis
    using s'(1,2,3) unfolding r strobe_value by blast
qed

text \<open>
  C10. On the serial peripheral, from every state, so also from one in which a completion
  flag is still set or the counter is not at zero, \<^verbatim>\<open>SPISend\<close> writes
  \<^verbatim>\<open>_BV(USIOIF)\<close> to \<^verbatim>\<open>USISR\<close> before its first poll, the first 16 polls read the
  flag clear, the 17th reads it set, and the call returns after exactly 8 shifts: never
  before the byte has been exchanged.
\<close>

theorem SPISend_clears_flag:
  "\<exists>r s' polls. SPISend usi b s = Some (r, s')
     \<and> log s' = log s @ [Wr USIDR b, Wr USISR (BV USIOIF)] @ polls @ [Rd USIDR r]
     \<and> polled polls = replicate 16 False @ [True]
     \<and> length (pulses (hw s')) = length (pulses (hw s)) + 8"
proof -
  let ?r = "byte_of_bits (incoming (hw s) 8)"
  from SPISend_usi_hw [of b s] obtain s' where
    s': "SPISend usi b s = Some (?r, s')" "hw s' = strobes usi 16 (loaded b (hw s))"
      "log s' = log s @ [Wr USIDR b, Wr USISR (BV USIOIF)] @ poll_log usi 16 (loaded b (hw s)) @ [Rd USIDR ?r]"
    by blast
  have "polled (poll_log usi 16 (loaded b (hw s))) = replicate 16 False @ [True]"
    by (rule polled_poll_log) (simp_all add: flagged_loaded)
  moreover have "length (pulses (hw s')) = length (pulses (hw s)) + 8"
    by (simp add: s'(2) strobes_16_loaded bits_of_byte_def)
  ultimately show ?thesis
    using s'(1,3) by blast
qed


theorem SPISend_clears_flag_witness:
  "usioif (hw (boot\<lparr>hw := (hw boot)\<lparr>usioif := True, usicnt := 9\<rparr>\<rparr>))
   \<and> (\<exists>r s' polls. SPISend usi 0xA5 (boot\<lparr>hw := (hw boot)\<lparr>usioif := True, usicnt := 9\<rparr>\<rparr>) = Some (r, s')
        \<and> log s' = [Wr USIDR 0xA5, Wr USISR 0x40] @ polls @ [Rd USIDR r]
        \<and> polled polls = replicate 16 False @ [True]
        \<and> length (pulses (hw s')) = 8)"
proof
  show "usioif (hw (boot\<lparr>hw := (hw boot)\<lparr>usioif := True, usicnt := 9\<rparr>\<rparr>))"
    by simp
next
  let ?s = "boot\<lparr>hw := (hw boot)\<lparr>usioif := True, usicnt := 9\<rparr>\<rparr>"
  from SPISend_clears_flag [of "0xA5" ?s] obtain r s' polls where
    s': "SPISend usi 0xA5 ?s = Some (r, s')"
      "log s' = log ?s @ [Wr USIDR 0xA5, Wr USISR (BV USIOIF)] @ polls @ [Rd USIDR r]"
      "polled polls = replicate 16 False @ [True]"
      "length (pulses (hw s')) = length (pulses (hw ?s)) + 8"
    by blast
  have "log s' = [Wr USIDR 0xA5, Wr USISR 0x40] @ polls @ [Rd USIDR r]"
    using s'(2) by (simp add: boot_def BV_simps)
  moreover have "length (pulses (hw s')) = 8"
    using s'(4) by (simp add: boot_def usi_reset_def)
  ultimately show "\<exists>r s' polls. SPISend usi 0xA5 ?s = Some (r, s')
        \<and> log s' = [Wr USIDR 0xA5, Wr USISR 0x40] @ polls @ [Rd USIDR r]
        \<and> polled polls = replicate 16 False @ [True]
        \<and> length (pulses (hw s')) = 8"
    using s'(1,3) by blast
qed

end
